theory Spec2Isabelle
  imports Main
begin

section \<open>The grid model of gen\_sol.py\<close>

text \<open>
  A board is a numpy array of shape (9, 9) read and written as \<open>board[x, y]\<close>. It is
  modelled as a function from index pairs to integers; only the 81 pairs of \<open>indices\<close>
  are ever read or written. \<open>0\<close> is the empty cell.
\<close>

type_synonym coord = "nat \<times> nat"
type_synonym grid = "coord \<Rightarrow> int"

datatype error = IndexError

text \<open>
  Modelled from the spec: the module \<open>constants\<close> (BOARD\_DIM, COMPLETE\_ROW,
  BLOCK\_ARRAY) is imported by gen\_sol.py but is not among the sources. The spec fixes a
  9 by 9 grid, the value set 1..9 and nine 3 by 3 blocks; the docstring of
  \<open>prefill_diagonals\<close> names the diagonal blocks 0, 4 and 8, which the numbering
  below gives.
\<close>

definition BOARD_DIM :: nat where
  "BOARD_DIM = 9"

definition COMPLETE_ROW :: "int list" where
  "COMPLETE_ROW = [1, 2, 3, 4, 5, 6, 7, 8, 9]"

definition BLOCK_ARRAY :: "coord \<Rightarrow> nat" where
  "BLOCK_ARRAY = (\<lambda>(x, y). 3 * (x div 3) + y div 3)"

text \<open>
  A Python set of integers is modelled as a duplicate-free list. \<open>py_diff\<close> is the
  set difference \<open>a - b\<close> and \<open>py_inter\<close> the intersection \<open>a & b\<close>.
\<close>

definition py_diff :: "int list \<Rightarrow> int list \<Rightarrow> int list" where
  "py_diff a b = filter (\<lambda>v. v \<notin> set b) a"

definition py_inter :: "int list \<Rightarrow> int list \<Rightarrow> int list" where
  "py_inter a b = filter (\<lambda>v. v \<in> set b) a"

text \<open>\<open>np.indices((9, 9))\<close>, zipped as the source does: all index pairs, row by row.\<close>

definition indices :: "coord list" where
  "indices = concat (map (\<lambda>x. map (\<lambda>y. (x, y)) [0..<9]) [0..<9])"

definition count_nonzero :: "grid \<Rightarrow> nat" where
  "count_nonzero board = length (filter (\<lambda>c. board c \<noteq> 0) indices)"

definition is_filled :: "grid \<Rightarrow> bool" where
  "is_filled board = (if count_nonzero board = BOARD_DIM ^ 2 then True else False)"

text \<open>
  \<open>squares()\<close>: the cells of each block and the block of each cell. The source returns
  the pair \<open>(groups, lookup)\<close>.
\<close>

definition groups :: "nat \<Rightarrow> coord list" where
  "groups g = filter (\<lambda>c. BLOCK_ARRAY c = g) indices"

definition lookup :: "coord \<Rightarrow> nat" where
  "lookup c = BLOCK_ARRAY c"

definition choices_from_square :: "grid \<Rightarrow> nat \<Rightarrow> nat \<Rightarrow> int list" where
  "choices_from_square board x y =
     (let g = lookup (x, y);
          cells_in_g = groups g;
          numbers_in_g = map board cells_in_g
      in py_diff COMPLETE_ROW numbers_in_g)"

text \<open>\<open>board[x, :]\<close> and \<open>board[:, y]\<close>.\<close>

definition row :: "grid \<Rightarrow> nat \<Rightarrow> int list" where
  "row board x = map (\<lambda>y. board (x, y)) [0..<9]"

definition col :: "grid \<Rightarrow> nat \<Rightarrow> int list" where
  "col board y = map (\<lambda>x. board (x, y)) [0..<9]"

definition construct_candidates :: "grid \<Rightarrow> nat \<Rightarrow> nat \<Rightarrow> int list" where
  "construct_candidates board x y =
     (let possible_from_row = py_diff COMPLETE_ROW (row board x);
          possible_from_col = py_diff COMPLETE_ROW (col board y);
          possible_from_square = choices_from_square board x y
      in py_inter (py_inter possible_from_col possible_from_row) possible_from_square)"

text \<open>
  \<open>get_unfilled_cell_rand\<close>: \<open>zero_indices\<close> is \<open>np.argwhere(board == 0)\<close>, the empty
  cells in row-major order. \<open>np.random.randint(n)\<close> yields some index below \<open>n\<close>; the
  model takes the raw draw \<open>r\<close> as an argument and reduces it modulo \<open>n\<close>, so every
  index below \<open>n\<close> is reachable. The function only reads the board.
\<close>

definition get_unfilled_cell_rand :: "nat \<Rightarrow> grid \<Rightarrow> error + coord" where
  "get_unfilled_cell_rand r board =
     (let zero_indices = filter (\<lambda>c. board c = 0) indices
      in if length zero_indices > 0
         then Inr (zero_indices ! (r mod length zero_indices))
         else Inl IndexError)"

text \<open>
  \<open>propagate_constraint\<close>: one pass over all cells in row-major order. The source
  tests only \<open>len(candidates) == 1\<close>; \<open>candidates.pop()\<close> then yields the single member.
\<close>

definition propagate_step :: "grid \<Rightarrow> coord \<Rightarrow> grid" where
  "propagate_step board = (\<lambda>(x, y).
     (let candidates = construct_candidates board x y
      in if length candidates = 1 then board((x, y) := hd candidates) else board))"

definition propagate_constraint :: "grid \<Rightarrow> grid" where
  "propagate_constraint board = foldl propagate_step board indices"

text \<open>
  A concrete board given by its nine rows, as the command line's
  \<open>np.array(...).reshape(9, 9)\<close> builds it.
\<close>

definition grid_of :: "int list list \<Rightarrow> grid" where
  "grid_of rows = (\<lambda>(x, y). rows ! x ! y)"

text \<open>Example boards: a solved grid, and the same grid with its last cell cleared.\<close>

definition solved_example :: "int list list" where
  "solved_example =
    [[1, 2, 3, 4, 5, 6, 7, 8, 9],
     [4, 5, 6, 7, 8, 9, 1, 2, 3],
     [7, 8, 9, 1, 2, 3, 4, 5, 6],
     [2, 3, 4, 5, 6, 7, 8, 9, 1],
     [5, 6, 7, 8, 9, 1, 2, 3, 4],
     [8, 9, 1, 2, 3, 4, 5, 6, 7],
     [3, 4, 5, 6, 7, 8, 9, 1, 2],
     [6, 7, 8, 9, 1, 2, 3, 4, 5],
     [9, 1, 2, 3, 4, 5, 6, 7, 8]]"

definition one_gap_example :: "int list list" where
  "one_gap_example = solved_example[8 := (solved_example ! 8)[8 := 0]]"

text \<open>
  The solved grid with the cells (0, 1) and (3, 0) cleared; both hold the value 2 in the
  solved grid.
\<close>

definition two_gap_example :: "int list list" where
  "two_gap_example =
    [[1, 0, 3, 4, 5, 6, 7, 8, 9],
     [4, 5, 6, 7, 8, 9, 1, 2, 3],
     [7, 8, 9, 1, 2, 3, 4, 5, 6],
     [0, 3, 4, 5, 6, 7, 8, 9, 1],
     [5, 6, 7, 8, 9, 1, 2, 3, 4],
     [8, 9, 1, 2, 3, 4, 5, 6, 7],
     [3, 4, 5, 6, 7, 8, 9, 1, 2],
     [6, 7, 8, 9, 1, 2, 3, 4, 5],
     [9, 1, 2, 3, 4, 5, 6, 7, 8]]"

text \<open>
  A board whose only empty cell, (8, 8), has no candidate: the solved grid with the 9 at
  (0, 8) replaced by 8, so that column 8 already holds the 8 that row 8 lacks.
\<close>

definition dead_end_example :: "int list list" where
  "dead_end_example =
    [[1, 2, 3, 4, 5, 6, 7, 8, 8],
     [4, 5, 6, 7, 8, 9, 1, 2, 3],
     [7, 8, 9, 1, 2, 3, 4, 5, 6],
     [2, 3, 4, 5, 6, 7, 8, 9, 1],
     [5, 6, 7, 8, 9, 1, 2, 3, 4],
     [8, 9, 1, 2, 3, 4, 5, 6, 7],
     [3, 4, 5, 6, 7, 8, 9, 1, 2],
     [6, 7, 8, 9, 1, 2, 3, 4, 5],
     [9, 1, 2, 3, 4, 5, 6, 7, 0]]"

text \<open>
  A consistent partial board without completion: row 0 lacks only the 1, and the 1 of
  block 0 stands at (1, 0), so the empty cell (0, 0) has no candidate.
\<close>

definition stuck_example :: "int list list" where
  "stuck_example =
    [[0, 2, 3, 4, 5, 6, 7, 8, 9],
     [1, 0, 0, 0, 0, 0, 0, 0, 0],
     [0, 0, 0, 0, 0, 0, 0, 0, 0],
     [0, 0, 0, 0, 0, 0, 0, 0, 0],
     [0, 0, 0, 0, 0, 0, 0, 0, 0],
     [0, 0, 0, 0, 0, 0, 0, 0, 0],
     [0, 0, 0, 0, 0, 0, 0, 0, 0],
     [0, 0, 0, 0, 0, 0, 0, 0, 0],
     [0, 0, 0, 0, 0, 0, 0, 0, 0]]"

text \<open>
  A board with 23 empty cells, each with two or three candidates, taken from the solved
  grid by clearing cells that hold 2, 3 or 4.
\<close>

definition unsettled_example :: "int list list" where
  "unsettled_example =
    [[1, 0, 0, 0, 5, 6, 7, 8, 9],
     [0, 5, 6, 7, 8, 9, 1, 0, 0],
     [7, 8, 9, 1, 0, 0, 0, 5, 6],
     [0, 0, 0, 5, 6, 7, 8, 9, 1],
     [5, 6, 7, 8, 9, 1, 2, 3, 4],
     [8, 9, 1, 0, 0, 0, 5, 6, 7],
     [0, 0, 5, 6, 7, 8, 9, 1, 0],
     [6, 7, 8, 9, 1, 0, 0, 0, 5],
     [9, 1, 0, 3, 0, 5, 6, 7, 8]]"

section \<open>Basic facts about the index list\<close>

lemma indices_eq:
  "indices =
    [(0,0),(0,1),(0,2),(0,3),(0,4),(0,5),(0,6),(0,7),(0,8),
     (1,0),(1,1),(1,2),(1,3),(1,4),(1,5),(1,6),(1,7),(1,8),
     (2,0),(2,1),(2,2),(2,3),(2,4),(2,5),(2,6),(2,7),(2,8),
     (3,0),(3,1),(3,2),(3,3),(3,4),(3,5),(3,6),(3,7),(3,8),
     (4,0),(4,1),(4,2),(4,3),(4,4),(4,5),(4,6),(4,7),(4,8),
     (5,0),(5,1),(5,2),(5,3),(5,4),(5,5),(5,6),(5,7),(5,8),
     (6,0),(6,1),(6,2),(6,3),(6,4),(6,5),(6,6),(6,7),(6,8),
     (7,0),(7,1),(7,2),(7,3),(7,4),(7,5),(7,6),(7,7),(7,8),
     (8,0),(8,1),(8,2),(8,3),(8,4),(8,5),(8,6),(8,7),(8,8)]"
  unfolding indices_def by code_simp

lemma upt_9: "[0..<9] = [0, 1, 2, 3, 4, 5, 6, 7, 8]"
  by code_simp

lemma groups_eq:
  "groups 0 = [(0,0),(0,1),(0,2),(1,0),(1,1),(1,2),(2,0),(2,1),(2,2)]"
  "groups 1 = [(0,3),(0,4),(0,5),(1,3),(1,4),(1,5),(2,3),(2,4),(2,5)]"
  "groups 2 = [(0,6),(0,7),(0,8),(1,6),(1,7),(1,8),(2,6),(2,7),(2,8)]"
  "groups 3 = [(3,0),(3,1),(3,2),(4,0),(4,1),(4,2),(5,0),(5,1),(5,2)]"
  "groups 4 = [(3,3),(3,4),(3,5),(4,3),(4,4),(4,5),(5,3),(5,4),(5,5)]"
  "groups 5 = [(3,6),(3,7),(3,8),(4,6),(4,7),(4,8),(5,6),(5,7),(5,8)]"
  "groups 6 = [(6,0),(6,1),(6,2),(7,0),(7,1),(7,2),(8,0),(8,1),(8,2)]"
  "groups 7 = [(6,3),(6,4),(6,5),(7,3),(7,4),(7,5),(8,3),(8,4),(8,5)]"
  "groups 8 = [(6,6),(6,7),(6,8),(7,6),(7,7),(7,8),(8,6),(8,7),(8,8)]"
  unfolding groups_def indices_eq BLOCK_ARRAY_def by simp_all

lemma set_indices: "set indices = {0..<9} \<times> {0..<9}"
  unfolding indices_def by auto

lemma length_indices: "length indices = 81"
  unfolding indices_def by (simp add: length_concat comp_def sum_list_triv)

lemma distinct_indices: "distinct indices"
  unfolding indices_def
  by (rule distinct_concat) (auto simp: distinct_map inj_on_def)

lemma in_indices: "(x, y) \<in> set indices \<longleftrightarrow> x < 9 \<and> y < 9"
  by (simp add: set_indices)

lemma count_nonzero_zero_cells:
  "count_nonzero board + length (filter (\<lambda>c. board c = 0) indices) = 81"
proof -
  have "length (filter (\<lambda>c. board c \<noteq> 0) indices)
        + length (filter (\<lambda>c. \<not> board c \<noteq> 0) indices) = length indices"
    by (rule sum_length_filter_compl)
  then show ?thesis by (simp add: count_nonzero_def length_indices)
qed

lemma is_filled_iff_no_zero_cell:
  "is_filled board \<longleftrightarrow> filter (\<lambda>c. board c = 0) indices = []"
  using count_nonzero_zero_cells [of board] by (auto simp: is_filled_def BOARD_DIM_def)

lemma is_filled_iff: "is_filled board \<longleftrightarrow> (\<forall>c\<in>set indices. board c \<noteq> 0)"
  by (simp add: is_filled_iff_no_zero_cell filter_empty_conv)

section \<open>Cell selection\<close>

lemma get_unfilled_cell_rand_not_filled:
  assumes "\<not> is_filled board"
  shows "\<exists>x y. get_unfilled_cell_rand r board = Inr (x, y)"
proof -
  from assms have "filter (\<lambda>c. board c = 0) indices \<noteq> []"
    by (simp add: is_filled_iff_no_zero_cell)
  then show ?thesis
    by (cases "filter (\<lambda>c. board c = 0) indices ! (r mod length (filter (\<lambda>c. board c = 0) indices))")
      (simp add: get_unfilled_cell_rand_def Let_def)
qed

text \<open>
  C7. \<open>get_unfilled_cell_rand\<close> raises IndexError exactly when the board has no
  empty cell, that is, when it is complete; otherwise it returns a coordinate taken from
  the list of empty cells, so the board holds 0 there. The function returns no board: it
  only reads its argument.
\<close>

theorem get_unfilled_cell_rand_error_iff_complete:
  "(get_unfilled_cell_rand r board = Inl IndexError \<longleftrightarrow> is_filled board) \<and>
   (is_filled board \<longleftrightarrow> (\<forall>x<9. \<forall>y<9. board (x, y) \<noteq> 0)) \<and>
   (\<not> is_filled board \<longrightarrow>
      (\<exists>x y. get_unfilled_cell_rand r board = Inr (x, y) \<and> x < 9 \<and> y < 9 \<and>
             (x, y) \<in> set (filter (\<lambda>c. board c = 0) indices) \<and> board (x, y) = 0))"
proof -
  let ?zs = "filter (\<lambda>c. board c = 0) indices"
  have a: "get_unfilled_cell_rand r board = Inl IndexError \<longleftrightarrow> is_filled board"
    by (simp add: get_unfilled_cell_rand_def Let_def is_filled_iff_no_zero_cell)
  have b: "is_filled board \<longleftrightarrow> (\<forall>x<9. \<forall>y<9. board (x, y) \<noteq> 0)"
    by (auto simp: is_filled_iff set_indices)
  have c: "\<exists>x y. get_unfilled_cell_rand r board = Inr (x, y) \<and> x < 9 \<and> y < 9 \<and>
             (x, y) \<in> set ?zs \<and> board (x, y) = 0" if "\<not> is_filled board"
  proof -
    from that have ne: "?zs \<noteq> []" by (simp add: is_filled_iff_no_zero_cell)
    then have lt: "r mod length ?zs < length ?zs" by simp
    obtain x y where xy: "?zs ! (r mod length ?zs) = (x, y)" by (cases "?zs ! (r mod length ?zs)")
    from lt have mem: "?zs ! (r mod length ?zs) \<in> set ?zs" by (rule nth_mem)
    with xy have "(x, y) \<in> set ?zs" by simp
    then have "(x, y) \<in> set indices" "board (x, y) = 0" by auto
    moreover have "get_unfilled_cell_rand r board = Inr (x, y)"
      using ne xy by (simp add: get_unfilled_cell_rand_def Let_def)
    ultimately show ?thesis using \<open>(x, y) \<in> set ?zs\<close> by (auto simp: in_indices)
  qed
  from a b c show ?thesis by blast
qed

theorem get_unfilled_cell_rand_error_iff_complete_witness:
  "get_unfilled_cell_rand 5 (grid_of solved_example) = Inl IndexError \<and>
   is_filled (grid_of solved_example) \<and>
   \<not> is_filled (grid_of one_gap_example) \<and>
   (\<exists>x y. get_unfilled_cell_rand 5 (grid_of one_gap_example) = Inr (x, y) \<and> x < 9 \<and> y < 9 \<and>
          grid_of one_gap_example (x, y) = 0)"
proof -
  have a: "is_filled (grid_of solved_example)"
    by (simp add: is_filled_iff indices_eq grid_of_def solved_example_def)
  have b: "\<not> is_filled (grid_of one_gap_example)"
    by (simp add: is_filled_iff indices_eq grid_of_def solved_example_def one_gap_example_def)
  show ?thesis
    using a b get_unfilled_cell_rand_error_iff_complete [of 5 "grid_of solved_example"]
      get_unfilled_cell_rand_error_iff_complete [of 5 "grid_of one_gap_example"]
    by blast
qed

section \<open>Candidate sets\<close>

lemma set_construct_candidates:
  "set (construct_candidates board x y) =
     {v. v \<in> set COMPLETE_ROW \<and> v \<notin> set (row board x) \<and> v \<notin> set (col board y) \<and>
         v \<notin> set (map board (groups (lookup (x, y))))}"
  unfolding construct_candidates_def choices_from_square_def py_diff_def py_inter_def Let_def
  by auto

lemma distinct_COMPLETE_ROW: "distinct COMPLETE_ROW"
  by (simp add: COMPLETE_ROW_def)

lemma distinct_construct_candidates: "distinct (construct_candidates board x y)"
  unfolding construct_candidates_def choices_from_square_def py_diff_def py_inter_def Let_def
  by (intro distinct_filter distinct_COMPLETE_ROW)

lemma length_construct_candidates: "length (construct_candidates board x y) \<le> 9"
proof -
  have "length (construct_candidates board x y) \<le> length COMPLETE_ROW"
    unfolding construct_candidates_def choices_from_square_def py_diff_def py_inter_def Let_def
    by (meson length_filter_le le_trans)
  then show ?thesis by (simp add: COMPLETE_ROW_def)
qed

lemma zero_notin_COMPLETE_ROW: "0 \<notin> set COMPLETE_ROW"
  by (simp add: COMPLETE_ROW_def)

lemma candidate_nonzero: "v \<in> set (construct_candidates board x y) \<Longrightarrow> v \<noteq> 0"
  using zero_notin_COMPLETE_ROW by (auto simp: set_construct_candidates)

lemma candidate_range: "v \<in> set (construct_candidates board x y) \<Longrightarrow> 1 \<le> v \<and> v \<le> 9"
  by (auto simp: set_construct_candidates COMPLETE_ROW_def)

text \<open>Values seen through a list of cells, before and after one cell is written.\<close>

lemma seen_after_fill:
  assumes "board c = 0" "v \<noteq> 0" "v \<in> set (map board cs)"
  shows "v \<in> set (map (board(c := w)) cs)"
proof -
  from assms(3) obtain d where d: "d \<in> set cs" "board d = v" by auto
  with assms(1,2) have "d \<noteq> c" by auto
  then have "(board(c := w)) d = v" using d by simp
  with d(1) show ?thesis by force
qed

lemma seen_after_clear:
  assumes "v \<noteq> 0" "v \<in> set (map (board(c := 0)) cs)"
  shows "v \<in> set (map board cs)"
proof -
  from assms(2) obtain d where d: "d \<in> set cs" "(board(c := 0)) d = v" by auto
  with assms(1) have "d \<noteq> c" by auto
  then have "board d = v" using d by simp
  with d(1) show ?thesis by force
qed

lemma row_as_map: "row board x = map board (map (\<lambda>y. (x, y)) [0..<9])"
  by (simp add: row_def comp_def)

lemma col_as_map: "col board y = map board (map (\<lambda>x. (x, y)) [0..<9])"
  by (simp add: col_def comp_def)

lemma candidates_after_fill:
  assumes z: "board c = 0" and u: "u \<in> set (construct_candidates (board(c := v)) x y)"
  shows "u \<in> set (construct_candidates board x y)"
proof -
  from u have nz: "u \<noteq> 0" by (rule candidate_nonzero)
  have a: "u \<notin> set (map board cs)" if "u \<notin> set (map (board(c := v)) cs)" for cs
    using that seen_after_fill [of board c u cs v] z nz by blast
  from u have m: "u \<in> set COMPLETE_ROW"
    and r: "u \<notin> set (map (board(c := v)) (map (\<lambda>y. (x, y)) [0..<9]))"
    and k: "u \<notin> set (map (board(c := v)) (map (\<lambda>x. (x, y)) [0..<9]))"
    and s: "u \<notin> set (map (board(c := v)) (groups (lookup (x, y))))"
    unfolding set_construct_candidates row_as_map col_as_map by blast+
  show ?thesis
    unfolding set_construct_candidates row_as_map col_as_map
    using m a [OF r] a [OF k] a [OF s] by blast
qed

lemma candidates_after_clear:
  assumes u: "u \<in> set (construct_candidates board x y)"
  shows "u \<in> set (construct_candidates (board(c := 0)) x y)"
proof -
  from u have nz: "u \<noteq> 0" by (rule candidate_nonzero)
  have a: "u \<notin> set (map (board(c := 0)) cs)" if "u \<notin> set (map board cs)" for cs
    using that seen_after_clear [of u board c cs] nz by blast
  from u have m: "u \<in> set COMPLETE_ROW"
    and r: "u \<notin> set (map board (map (\<lambda>y. (x, y)) [0..<9]))"
    and k: "u \<notin> set (map board (map (\<lambda>x. (x, y)) [0..<9]))"
    and s: "u \<notin> set (map board (groups (lookup (x, y))))"
    unfolding set_construct_candidates row_as_map col_as_map by blast+
  show ?thesis
    unfolding set_construct_candidates row_as_map col_as_map
    using m a [OF r] a [OF k] a [OF s] by blast
qed

text \<open>
  C8. Candidate-set monotonicity. Writing a value of 1..9 into an empty cell \<open>c\<close> never
  adds a candidate to another cell \<open>(x', y')\<close>, and clearing a filled cell \<open>c\<close> never
  removes one.
\<close>

theorem candidates_monotone:
  "(board c = 0 \<and> v \<in> set COMPLETE_ROW \<and> (x', y') \<noteq> c \<longrightarrow>
      set (construct_candidates (board(c := v)) x' y') \<subseteq> set (construct_candidates board x' y')) \<and>
   (board c \<noteq> 0 \<and> (x', y') \<noteq> c \<longrightarrow>
      set (construct_candidates board x' y') \<subseteq> set (construct_candidates (board(c := 0)) x' y'))"
proof (intro conjI impI subsetI)
  fix u
  assume "board c = 0 \<and> v \<in> set COMPLETE_ROW \<and> (x', y') \<noteq> c"
    and "u \<in> set (construct_candidates (board(c := v)) x' y')"
  then show "u \<in> set (construct_candidates board x' y')"
    by (blast intro: candidates_after_fill)
next
  fix u
  assume "u \<in> set (construct_candidates board x' y')"
  then show "u \<in> set (construct_candidates (board(c := 0)) x' y')"
    by (rule candidates_after_clear)
qed

theorem candidates_monotone_witness:
  "set (construct_candidates ((grid_of one_gap_example)((8, 8) := 8)) 8 0)
     \<subseteq> set (construct_candidates (grid_of one_gap_example) 8 0) \<and>
   set (construct_candidates (grid_of solved_example) 8 0)
     \<subseteq> set (construct_candidates ((grid_of solved_example)((8, 8) := 0)) 8 0)"
proof -
  have a: "grid_of one_gap_example (8, 8) = 0"
    by (simp add: grid_of_def one_gap_example_def solved_example_def)
  have b: "(8::int) \<in> set COMPLETE_ROW" by (simp add: COMPLETE_ROW_def)
  have c: "grid_of solved_example (8, 8) \<noteq> 0"
    by (simp add: grid_of_def solved_example_def)
  have d: "((8::nat), (0::nat)) \<noteq> (8, 8)" by simp
  show ?thesis
    using a b c d candidates_monotone [of "grid_of one_gap_example" "(8, 8)" 8 8 0]
      candidates_monotone [of "grid_of solved_example" "(8, 8)" 8 8 0]
    by blast
qed

section \<open>Constraint propagation\<close>

lemma foldl_unchanged: "(\<And>c. c \<in> set cs \<Longrightarrow> f b c = b) \<Longrightarrow> foldl f b cs = b"
  by (induction cs) simp_all

lemma propagate_fixed:
  assumes "\<forall>c\<in>set indices. length (construct_candidates board (fst c) (snd c)) \<noteq> 1"
  shows "propagate_constraint board = board"
  unfolding propagate_constraint_def
proof (rule foldl_unchanged)
  fix c assume "c \<in> set indices"
  with assms have "length (construct_candidates board (fst c) (snd c)) \<noteq> 1" by blast
  then show "propagate_step board c = board"
    by (cases c) (simp add: propagate_step_def Let_def)
qed

lemma candidates_of_empty_grid: "construct_candidates (\<lambda>c. 0) x y = COMPLETE_ROW"
proof -
  have a: "filter (\<lambda>v. v \<notin> set (map (\<lambda>c. 0::int) cs)) COMPLETE_ROW = COMPLETE_ROW" for cs :: "'a list"
    using zero_notin_COMPLETE_ROW by (auto simp: filter_id_conv)
  have b: "filter (\<lambda>v. v \<in> set COMPLETE_ROW) COMPLETE_ROW = COMPLETE_ROW"
    by (simp add: filter_id_conv)
  have r: "row (\<lambda>c. 0) x = map (\<lambda>c. 0) [0..<9]" by (simp add: row_def)
  have k: "col (\<lambda>c. 0) y = map (\<lambda>c. 0) [0..<9]" by (simp add: col_def)
  show ?thesis
    unfolding construct_candidates_def choices_from_square_def py_diff_def py_inter_def Let_def r k
    by (simp only: a b)
qed

text \<open>
  Where no cell at all, filled or empty, has a candidate set with exactly one member, the
  pass changes nothing, and a second pass yields the same grid as the first.
\<close>

lemma propagate_idempotent_without_singletons:
  assumes "\<forall>x<9. \<forall>y<9. length (construct_candidates board x y) \<noteq> 1"
  shows "propagate_constraint (propagate_constraint board) = propagate_constraint board"
proof -
  from assms have "\<forall>c\<in>set indices. length (construct_candidates board (fst c) (snd c)) \<noteq> 1"
    by (auto simp: set_indices)
  then have "propagate_constraint board = board" by (rule propagate_fixed)
  then show ?thesis by simp
qed

lemma propagate_idempotent_on_empty_grid:
  "propagate_constraint (propagate_constraint (\<lambda>c. 0)) = propagate_constraint (\<lambda>c. 0)"
proof -
  have "\<forall>x<9. \<forall>y<9. length (construct_candidates (\<lambda>c. 0) x y) \<noteq> 1"
    by (simp add: candidates_of_empty_grid COMPLETE_ROW_def)
  then show ?thesis by (rule propagate_idempotent_without_singletons)
qed

lemma propagate_step_other: "c \<noteq> d \<Longrightarrow> propagate_step board d c = board c"
  by (cases d) (simp add: propagate_step_def Let_def)

lemma foldl_propagate_step_other:
  "c \<notin> set cs \<Longrightarrow> foldl propagate_step board cs c = board c"
  by (induction cs arbitrary: board) (auto simp: propagate_step_other)

text \<open>
  Every cell is visited once: the value of a cell after the pass is the value the step
  at that cell gives it, on the board as it is when the scan reaches the cell.
\<close>

lemma propagate_constraint_at_visit:
  assumes "indices = pre @ c # post"
  shows "propagate_constraint board c = propagate_step (foldl propagate_step board pre) c c"
proof -
  have "distinct (pre @ c # post)" using distinct_indices by (simp only: assms)
  then have "c \<notin> set post" by simp
  then show ?thesis
    by (simp add: propagate_constraint_def assms foldl_propagate_step_other)
qed

lemma candidates_two_gap_example_0_0: "construct_candidates (grid_of two_gap_example) 0 0 = [2]"
  by (simp add: construct_candidates_def choices_from_square_def py_diff_def py_inter_def
      row_def col_def lookup_def BLOCK_ARRAY_def groups_eq upt_9 COMPLETE_ROW_def grid_of_def
      two_gap_example_def)

text \<open>
  C4. The claim says that a cell already filled when it is visited keeps its value. The
  source has no test for emptiness, and a filled cell whose row, column and block leave
  exactly one value of 1..9 unused is overwritten with that value. In the example the cell
  (0, 0) holds 1, its candidate set is {2}, and the pass writes 2 into it.
\<close>

theorem propagate_overwrites_filled_cell:
  "grid_of two_gap_example (0, 0) = 1 \<and>
   construct_candidates (grid_of two_gap_example) 0 0 = [2] \<and>
   propagate_constraint (grid_of two_gap_example) (0, 0) = 2"
proof -
  have i: "indices = [] @ (0, 0) # tl indices" by (simp add: indices_eq)
  have a: "grid_of two_gap_example (0, 0) = 1"
    by (simp add: grid_of_def two_gap_example_def)
  show ?thesis
    using a candidates_two_gap_example_0_0
      propagate_constraint_at_visit [OF i, of "grid_of two_gap_example"]
    by (simp add: propagate_step_def)
qed

section \<open>The search loop\<close>

text \<open>
  The random source is a list of raw draws, consumed from the front; an exhausted list
  yields 0. Each iteration of a search loop takes two draws: one for
  \<open>np.random.randint\<close> in \<open>get_unfilled_cell_rand\<close>, and one that fixes the order in
  which \<open>for candidate in candidates\<close> iterates the candidate set, which Python leaves
  unspecified. \<open>iter_order n\<close> is the \<open>n\<close>-th arrangement of a list.

  \<open>branches\<close> is the body of that loop: copy the board, write the candidate, run one
  propagation pass; the results are appended to the stack in iteration order. The stack
  is a Python list: \<open>pop()\<close> takes its last element.

  \<open>unfilled\<close> and \<open>weight\<close> are not in the source; they are the measure for the
  termination of the loops.
\<close>

definition next_draw :: "nat list \<Rightarrow> nat" where
  "next_draw rs = (case rs of [] \<Rightarrow> 0 | r # _ \<Rightarrow> r)"

fun iter_order :: "nat \<Rightarrow> 'a list \<Rightarrow> 'a list" where
  "iter_order n [] = []"
| "iter_order n (v # vs) =
     (let rest = iter_order (n div Suc (length vs)) vs;
          i = n mod Suc (length vs)
      in take i rest @ v # drop i rest)"

definition branches :: "grid \<Rightarrow> coord \<Rightarrow> int list \<Rightarrow> grid list" where
  "branches board c candidates =
     map (\<lambda>candidate. propagate_constraint (board(c := candidate))) candidates"

definition unfilled :: "grid \<Rightarrow> nat" where
  "unfilled board = length (filter (\<lambda>c. board c = 0) indices)"

definition weight :: "grid list \<Rightarrow> nat" where
  "weight stack = sum_list (map (\<lambda>b. 10 ^ unfilled b) stack)"

lemma set_iter_order: "set (iter_order n vs) = set vs"
proof (induction vs arbitrary: n)
  case Nil
  then show ?case by simp
next
  case (Cons v vs)
  have "set (take i xs @ v # drop i xs) = insert v (set xs)" for i and xs :: "'a list"
    by (metis append_take_drop_id list.simps(15) set_append Un_insert_right)
  then show ?case using Cons by (simp add: Let_def)
qed

lemma length_iter_order: "length (iter_order n vs) = length vs"
  by (induction vs arbitrary: n) (auto simp: Let_def)

lemma filter_flip_one:
  "distinct xs \<Longrightarrow> c \<in> set xs \<Longrightarrow> P c \<Longrightarrow> \<not> Q c \<Longrightarrow> (\<And>d. d \<noteq> c \<Longrightarrow> Q d = P d) \<Longrightarrow>
   Suc (length (filter Q xs)) = length (filter P xs)"
proof (induction xs)
  case Nil
  then show ?case by simp
next
  case (Cons a xs)
  show ?case
  proof (cases "a = c")
    case True
    with Cons.prems have "c \<notin> set xs" by simp
    have "filter Q xs = filter P xs"
    proof (rule filter_cong [OF refl])
      fix d assume "d \<in> set xs"
      with \<open>c \<notin> set xs\<close> have "d \<noteq> c" by auto
      then show "Q d = P d" by (rule Cons.prems(5))
    qed
    with True Cons.prems show ?thesis by simp
  next
    case False
    with Cons have "Suc (length (filter Q xs)) = length (filter P xs)" by simp
    moreover have "Q a = P a" using False Cons.prems(5) by simp
    ultimately show ?thesis by simp
  qed
qed

lemma filter_length_mono:
  "(\<And>d. d \<in> set xs \<Longrightarrow> Q d \<Longrightarrow> P d) \<Longrightarrow> length (filter Q xs) \<le> length (filter P xs)"
  by (induction xs) auto

lemma unfilled_fill:
  assumes "c \<in> set indices" "board c = 0" "v \<noteq> 0"
  shows "Suc (unfilled (board(c := v))) = unfilled board"
  unfolding unfilled_def
  by (rule filter_flip_one [OF distinct_indices assms(1)]) (use assms in auto)

lemma unfilled_write_nonzero: "v \<noteq> 0 \<Longrightarrow> unfilled (board(c := v)) \<le> unfilled board"
  unfolding unfilled_def by (rule filter_length_mono) (auto split: if_splits)

lemma hd_candidate_nonzero:
  "length (construct_candidates board x y) = 1 \<Longrightarrow> hd (construct_candidates board x y) \<noteq> 0"
proof -
  assume "length (construct_candidates board x y) = 1"
  then have "construct_candidates board x y \<noteq> []" by auto
  then have "hd (construct_candidates board x y) \<in> set (construct_candidates board x y)"
    by (rule hd_in_set)
  then show ?thesis by (rule candidate_nonzero)
qed

lemma unfilled_propagate_step: "unfilled (propagate_step board c) \<le> unfilled board"
  by (cases c) (simp add: propagate_step_def Let_def unfilled_write_nonzero hd_candidate_nonzero)

lemma unfilled_foldl_propagate_step: "unfilled (foldl propagate_step board cs) \<le> unfilled board"
proof (induction cs arbitrary: board)
  case Nil
  then show ?case by simp
next
  case (Cons c cs)
  have "unfilled (foldl propagate_step (propagate_step board c) cs) \<le> unfilled (propagate_step board c)"
    by (rule Cons.IH)
  also have "\<dots> \<le> unfilled board" by (rule unfilled_propagate_step)
  finally show ?case by simp
qed

lemma unfilled_propagate_constraint: "unfilled (propagate_constraint board) \<le> unfilled board"
  unfolding propagate_constraint_def by (rule unfilled_foldl_propagate_step)

lemma get_unfilled_cell_rand_Inr:
  assumes "get_unfilled_cell_rand r board = Inr c"
  shows "c \<in> set indices \<and> board c = 0"
proof -
  let ?zs = "filter (\<lambda>c. board c = 0) indices"
  from assms have ne: "?zs \<noteq> []" and c: "c = ?zs ! (r mod length ?zs)"
    by (auto simp: get_unfilled_cell_rand_def Let_def split: if_splits)
  from ne have "r mod length ?zs < length ?zs" by simp
  then have "?zs ! (r mod length ?zs) \<in> set ?zs" by (rule nth_mem)
  with c show ?thesis by simp
qed

lemma unfilled_branch:
  assumes "c \<in> set indices" "board c = 0" "nb \<in> set (branches board c (construct_candidates board x y))"
  shows "Suc (unfilled nb) \<le> unfilled board"
proof -
  from assms(3) obtain v where v: "v \<in> set (construct_candidates board x y)"
    and nb: "nb = propagate_constraint (board(c := v))"
    by (auto simp: branches_def)
  from v have "v \<noteq> 0" by (rule candidate_nonzero)
  with assms have "Suc (unfilled (board(c := v))) = unfilled board" by (simp add: unfilled_fill)
  moreover have "unfilled nb \<le> unfilled (board(c := v))"
    unfolding nb by (rule unfilled_propagate_constraint)
  ultimately show ?thesis by simp
qed

lemma sum_list_bound:
  "(\<And>x. x \<in> set xs \<Longrightarrow> f x \<le> (k::nat)) \<Longrightarrow> sum_list (map f xs) \<le> length xs * k"
  by (induction xs) (auto simp: add_mono)

lemma weight_branches:
  assumes "c \<in> set indices" "board c = 0" "set vs = set (construct_candidates board x y)"
    "length vs \<le> 9"
  shows "weight (branches board c vs) < 10 ^ unfilled board"
proof -
  from assms(1,2) have "c \<in> set (filter (\<lambda>c. board c = 0) indices)" by simp
  then have "unfilled board \<noteq> 0" unfolding unfilled_def by (metis length_0_conv empty_iff list.set(1))
  then obtain m where m: "unfilled board = Suc m" by (cases "unfilled board") auto
  have bs: "set (branches board c vs) = set (branches board c (construct_candidates board x y))"
    unfolding branches_def using assms(3) by simp
  have "(10::nat) ^ unfilled nb \<le> 10 ^ m" if "nb \<in> set (branches board c vs)" for nb
  proof -
    from that bs assms(1,2) have "Suc (unfilled nb) \<le> unfilled board"
      by (auto intro: unfilled_branch)
    with m have "unfilled nb \<le> m" by simp
    then show ?thesis by (rule power_increasing) simp
  qed
  then have "weight (branches board c vs) \<le> length (branches board c vs) * 10 ^ m"
    unfolding weight_def by (rule sum_list_bound)
  also have "\<dots> \<le> 9 * 10 ^ m" using assms(4) by (simp add: branches_def)
  also have "\<dots> < 10 ^ unfilled board" by (simp add: m)
  finally show ?thesis .
qed

lemma weight_append: "weight (xs @ ys) = weight xs + weight ys"
  by (simp add: weight_def)

lemma weight_pop: "stack \<noteq> [] \<Longrightarrow> weight stack = weight (butlast stack) + 10 ^ unfilled (last stack)"
proof -
  assume "stack \<noteq> []"
  then have "stack = butlast stack @ [last stack]" by simp
  then have "weight stack = weight (butlast stack @ [last stack])" by simp
  then show ?thesis by (simp add: weight_append) (simp add: weight_def)
qed

lemma weight_expand:
  assumes "stack \<noteq> []" "get_unfilled_cell_rand r (last stack) = Inr (x, y)"
  shows "weight (butlast stack @ branches (last stack) (x, y)
           (iter_order n (construct_candidates (last stack) x y))) < weight stack"
proof -
  from assms(2) have c: "(x, y) \<in> set indices" "last stack (x, y) = 0"
    using get_unfilled_cell_rand_Inr by blast+
  have "length (iter_order n (construct_candidates (last stack) x y)) \<le> 9"
    by (simp add: length_iter_order length_construct_candidates)
  with c have "weight (branches (last stack) (x, y) (iter_order n (construct_candidates (last stack) x y)))
      < 10 ^ unfilled (last stack)"
    by (intro weight_branches) (simp_all add: set_iter_order)
  then show ?thesis using weight_pop [OF assms(1)] by (simp add: weight_append)
qed

function backtrack_loop :: "nat list \<Rightarrow> grid list \<Rightarrow> error + grid" where
  "backtrack_loop rs stack =
     (if stack = [] then Inl IndexError
      else
        let board = last stack
        in if is_filled board then Inr board
           else
             (case get_unfilled_cell_rand (next_draw rs) board of
                Inl e \<Rightarrow> Inl e
              | Inr (x, y) \<Rightarrow>
                  let candidates = iter_order (next_draw (tl rs)) (construct_candidates board x y)
                  in backtrack_loop (tl (tl rs)) (butlast stack @ branches board (x, y) candidates)))"
  by pat_completeness auto
termination
proof (relation "measure (\<lambda>(rs, stack). weight stack)", goal_cases)
  case 1
  then show ?case by simp
next
  case (2 rs stack board c x y candidates)
  then have "get_unfilled_cell_rand (next_draw rs) (last stack) = Inr (x, y)" by simp
  from weight_expand [OF 2(1) this] 2 show ?case by simp
qed

definition backtrack_iter :: "nat list \<Rightarrow> grid \<Rightarrow> error + grid" where
  "backtrack_iter rs board = backtrack_loop rs [board]"

declare backtrack_loop.simps [simp del]


section \<open>Solved and consistent grids\<close>

text \<open>
  The properties the claims speak of, as executable predicates. \<open>units\<close> are the 27
  rows, columns and blocks as lists of cells. A grid is \<open>solved\<close> when every unit holds
  each value of 1..9 exactly once; it is \<open>consistent\<close> when no unit holds a non-zero
  value twice; it is \<open>in_range\<close> when every cell holds a value of 0..9.
\<close>

definition units :: "coord list list" where
  "units = map (\<lambda>x. map (\<lambda>y. (x, y)) [0..<9]) [0..<9]
         @ map (\<lambda>y. map (\<lambda>x. (x, y)) [0..<9]) [0..<9]
         @ map groups [0..<9]"

definition each_once :: "int list \<Rightarrow> bool" where
  "each_once vs = list_all (\<lambda>v. count_list vs v = 1) COMPLETE_ROW"

definition solved :: "grid \<Rightarrow> bool" where
  "solved board = list_all (\<lambda>u. each_once (map board u)) units"

definition consistent :: "grid \<Rightarrow> bool" where
  "consistent board = list_all (\<lambda>u. distinct (filter (\<lambda>v. v \<noteq> 0) (map board u))) units"

definition in_range :: "grid \<Rightarrow> bool" where
  "in_range board = list_all (\<lambda>c. 0 \<le> board c \<and> board c \<le> 9) indices"

text \<open>\<open>completes board full\<close>: the grid \<open>full\<close> keeps every filled cell of \<open>board\<close>.\<close>

definition completes :: "grid \<Rightarrow> grid \<Rightarrow> bool" where
  "completes board full = list_all (\<lambda>c. board c = 0 \<or> full c = board c) indices"

lemma unit_cases:
  assumes "u \<in> set units"
  obtains x where "x < 9" "u = map (\<lambda>y. (x, y)) [0..<9]"
        | y where "y < 9" "u = map (\<lambda>x. (x, y)) [0..<9]"
        | g where "g < 9" "u = groups g"
proof -
  from assms have "u \<in> (\<lambda>x. map (\<lambda>y. (x, y)) [0..<9]) ` set [0..<9]
      \<union> (\<lambda>y. map (\<lambda>x. (x, y)) [0..<9]) ` set [0..<9] \<union> groups ` set [0..<9]"
    by (simp only: units_def set_append set_map Un_assoc)
  then consider x where "x \<in> set [0..<9]" "u = map (\<lambda>y. (x, y)) [0..<9]"
    | y where "y \<in> set [0..<9]" "u = map (\<lambda>x. (x, y)) [0..<9]"
    | g where "g \<in> set [0..<9]" "u = groups g"
    by blast
  then show thesis
  proof cases
    case 1
    from 1(1) have "x < 9" by (simp only: set_upt atLeastLessThan_iff)
    then show ?thesis using 1(2) by (rule that(1))
  next
    case 2
    from 2(1) have "y < 9" by (simp only: set_upt atLeastLessThan_iff)
    then show ?thesis using 2(2) by (rule that(2))
  next
    case 3
    from 3(1) have "g < 9" by (simp only: set_upt atLeastLessThan_iff)
    then show ?thesis using 3(2) by (rule that(3))
  qed
qed

lemma distinct_unit: "u \<in> set units \<Longrightarrow> distinct u"
proof (erule unit_cases)
  fix x assume "u = map (\<lambda>y. (x, y)) [0..<9]"
  then show "distinct u" by (simp add: distinct_map inj_on_def)
next
  fix y assume "u = map (\<lambda>x. (x, y)) [0..<9]"
  then show "distinct u" by (simp add: distinct_map inj_on_def)
next
  fix g assume "u = groups g"
  then show "distinct u" by (simp add: groups_def distinct_indices)
qed

lemma unit_in_indices: "u \<in> set units \<Longrightarrow> set u \<subseteq> set indices"
proof (erule unit_cases)
  fix x :: nat assume "x < 9" "u = map (\<lambda>y. (x, y)) [0..<9]"
  then show "set u \<subseteq> set indices" by (auto simp: set_indices)
next
  fix y :: nat assume "y < 9" "u = map (\<lambda>x. (x, y)) [0..<9]"
  then show "set u \<subseteq> set indices" by (auto simp: set_indices)
next
  fix g assume "u = groups g"
  then show "set u \<subseteq> set indices" by (auto simp: groups_def)
qed

lemma groups_Suc_0: "groups (Suc 0) = [(0,3),(0,4),(0,5),(1,3),(1,4),(1,5),(2,3),(2,4),(2,5)]"
  using groups_eq(2) by simp

lemma length_groups: "g < 9 \<Longrightarrow> length (groups g) = 9"
proof -
  assume "g < 9"
  then have "g \<in> {0, 1, 2, 3, 4, 5, 6, 7, 8}" by auto
  then show ?thesis by (auto simp: groups_eq groups_Suc_0)
qed

lemma length_unit: "u \<in> set units \<Longrightarrow> length u = 9"
  by (erule unit_cases) (auto simp: length_groups)

lemma candidate_not_in_unit:
  assumes "u \<in> set units" "(x, y) \<in> set u" "v \<in> set (construct_candidates board x y)"
  shows "v \<notin> set (map board u)"
  using assms(1)
proof (cases rule: unit_cases)
  case (1 x')
  with assms(2) have "x' = x" by auto
  with 1 have "map board u = row board x" by (simp add: row_as_map)
  with assms(3) show ?thesis by (simp add: set_construct_candidates)
next
  case (2 y')
  with assms(2) have "y' = y" by auto
  with 2 have "map board u = col board y" by (simp add: col_as_map)
  with assms(3) show ?thesis by (simp add: set_construct_candidates)
next
  case (3 g)
  with assms(2) have "g = lookup (x, y)" by (simp add: groups_def lookup_def)
  with 3 assms(3) show ?thesis by (simp add: set_construct_candidates)
qed

lemma nodup_iff:
  "distinct cs \<Longrightarrow>
   distinct (filter (\<lambda>v. v \<noteq> (0::int)) (map f cs)) \<longleftrightarrow> inj_on f {d \<in> set cs. f d \<noteq> 0}"
  by (simp add: filter_map distinct_map comp_def)

lemma nodup_write:
  assumes "distinct cs" "distinct (filter (\<lambda>v. v \<noteq> 0) (map board cs))" "w \<notin> set (map board cs)"
  shows "distinct (filter (\<lambda>v. v \<noteq> (0::int)) (map (board(c := w)) cs))"
proof -
  from assms(1,2) have inj: "inj_on board {d \<in> set cs. board d \<noteq> 0}"
    by (simp only: nodup_iff)
  have "inj_on (board(c := w)) {d \<in> set cs. (board(c := w)) d \<noteq> 0}"
  proof (rule inj_onI)
    fix d e
    assume d: "d \<in> {d \<in> set cs. (board(c := w)) d \<noteq> 0}"
      and e: "e \<in> {d \<in> set cs. (board(c := w)) d \<noteq> 0}"
      and eq: "(board(c := w)) d = (board(c := w)) e"
    show "d = e"
    proof (cases "d = c")
      case dc: True
      show ?thesis
      proof (cases "e = c")
        case True
        with dc show ?thesis by simp
      next
        case False
        with dc eq have "w = board e" by simp
        moreover from e have "e \<in> set cs" by simp
        ultimately show ?thesis using assms(3) by auto
      qed
    next
      case dn: False
      show ?thesis
      proof (cases "e = c")
        case True
        with dn eq have "w = board d" by simp
        moreover from d have "d \<in> set cs" by simp
        ultimately show ?thesis using assms(3) by auto
      next
        case False
        with dn eq d e have "board d = board e" "d \<in> {d \<in> set cs. board d \<noteq> 0}"
          "e \<in> {d \<in> set cs. board d \<noteq> 0}" by simp_all
        with inj show ?thesis by (auto dest: inj_onD)
      qed
    qed
  qed
  with assms(1) show ?thesis by (simp only: nodup_iff)
qed

lemma map_write_outside: "c \<notin> set cs \<Longrightarrow> map (board(c := w)) cs = map board cs"
  by (induction cs) auto

lemma consistent_write_candidate:
  assumes "consistent board" "v \<in> set (construct_candidates board x y)"
  shows "consistent (board((x, y) := v))"
  unfolding consistent_def list_all_iff
proof
  fix u assume u: "u \<in> set units"
  with assms(1) have d: "distinct (filter (\<lambda>v. v \<noteq> 0) (map board u))"
    by (simp add: consistent_def list_all_iff)
  show "distinct (filter (\<lambda>v. v \<noteq> 0) (map (board((x, y) := v)) u))"
  proof (cases "(x, y) \<in> set u")
    case True
    from u True assms(2) have "v \<notin> set (map board u)" by (rule candidate_not_in_unit)
    show ?thesis by (rule nodup_write [OF distinct_unit [OF u] d \<open>v \<notin> set (map board u)\<close>])
  next
    case False
    with d show ?thesis by (simp add: map_write_outside)
  qed
qed

lemma in_range_write_candidate:
  assumes "in_range board" "v \<in> set (construct_candidates board x y)"
  shows "in_range (board((x, y) := v))"
  using assms candidate_range [OF assms(2)]
  by (auto simp: in_range_def list_all_iff)

definition ok :: "grid \<Rightarrow> bool" where
  "ok board \<longleftrightarrow> consistent board \<and> in_range board"

lemma ok_write_candidate:
  "ok board \<Longrightarrow> v \<in> set (construct_candidates board x y) \<Longrightarrow> ok (board((x, y) := v))"
  by (simp add: ok_def consistent_write_candidate in_range_write_candidate)

lemma ok_propagate_step: "ok board \<Longrightarrow> ok (propagate_step board c)"
proof (cases c)
  case (Pair x y)
  assume o: "ok board"
  show ?thesis
  proof (cases "length (construct_candidates board x y) = 1")
    case True
    then have "construct_candidates board x y \<noteq> []" by auto
    then have "hd (construct_candidates board x y) \<in> set (construct_candidates board x y)"
      by (rule hd_in_set)
    with o have "ok (board((x, y) := hd (construct_candidates board x y)))"
      by (rule ok_write_candidate)
    with True Pair show ?thesis by (simp add: propagate_step_def Let_def)
  next
    case False
    with o Pair show ?thesis by (simp add: propagate_step_def Let_def)
  qed
qed

lemma ok_foldl_propagate_step: "ok board \<Longrightarrow> ok (foldl propagate_step board cs)"
  by (induction cs arbitrary: board) (simp_all add: ok_propagate_step)

lemma ok_propagate_constraint: "ok board \<Longrightarrow> ok (propagate_constraint board)"
  unfolding propagate_constraint_def by (rule ok_foldl_propagate_step)

lemma ok_branches:
  assumes "ok board" "set vs \<subseteq> set (construct_candidates board x y)"
    "nb \<in> set (branches board (x, y) vs)"
  shows "ok nb"
proof -
  from assms(3) obtain v where "v \<in> set vs" "nb = propagate_constraint (board((x, y) := v))"
    by (auto simp: branches_def)
  with assms(1,2) show ?thesis by (auto intro: ok_propagate_constraint ok_write_candidate)
qed

lemma backtrack_loop_ok:
  "\<forall>b\<in>set stack. ok b \<Longrightarrow> backtrack_loop rs stack = Inr r \<Longrightarrow> ok r \<and> is_filled r"
proof (induction rs stack rule: backtrack_loop.induct)
  case (1 rs stack)
  show ?case
  proof (cases "stack = []")
    case True
    with "1.prems"(2) show ?thesis by (simp add: backtrack_loop.simps)
  next
    case ne: False
    then have l: "last stack \<in> set stack" by simp
    show ?thesis
    proof (cases "is_filled (last stack)")
      case True
      with ne "1.prems"(2) have "r = last stack" by (simp add: backtrack_loop.simps)
      with True l "1.prems"(1) show ?thesis by simp
    next
      case nf: False
      then obtain x y where c: "get_unfilled_cell_rand (next_draw rs) (last stack) = Inr (x, y)"
        using get_unfilled_cell_rand_not_filled [of "last stack" "next_draw rs"] by blast
      let ?cands = "iter_order (next_draw (tl rs)) (construct_candidates (last stack) x y)"
      let ?stack' = "butlast stack @ branches (last stack) (x, y) ?cands"
      have eq: "backtrack_loop rs stack = backtrack_loop (tl (tl rs)) ?stack'"
        using ne nf c by (subst backtrack_loop.simps) (simp add: Let_def)
      have inv: "\<forall>b\<in>set ?stack'. ok b"
      proof
        fix b assume "b \<in> set ?stack'"
        then consider "b \<in> set (butlast stack)" | "b \<in> set (branches (last stack) (x, y) ?cands)"
          by auto
        then show "ok b"
        proof cases
          case 1
          then have "b \<in> set stack" by (rule in_set_butlastD)
          with "1.prems"(1) show ?thesis by simp
        next
          case 2
          moreover have "ok (last stack)" using l "1.prems"(1) by simp
          ultimately show ?thesis by (rule ok_branches [rotated 2]) (simp_all add: set_iter_order)
        qed
      qed
      from "1.IH" [OF ne refl nf c refl refl inv] "1.prems"(2) eq show ?thesis by simp
    qed
  qed
qed

section \<open>Evaluating the loop\<close>

lemma is_filled_unfilled: "is_filled board \<longleftrightarrow> unfilled board = 0"
  by (simp add: is_filled_iff_no_zero_cell unfilled_def)

lemma is_filled_propagate_constraint: "is_filled board \<Longrightarrow> is_filled (propagate_constraint board)"
  using unfilled_propagate_constraint [of board] by (simp add: is_filled_unfilled)

lemma backtrack_loop_expand:
  assumes "stack \<noteq> []" "\<not> is_filled (last stack)"
    "get_unfilled_cell_rand (next_draw rs) (last stack) = Inr (x, y)"
  shows "backtrack_loop rs stack =
    backtrack_loop (tl (tl rs)) (butlast stack @ branches (last stack) (x, y)
      (iter_order (next_draw (tl rs)) (construct_candidates (last stack) x y)))"
  using assms by (subst backtrack_loop.simps) (simp add: Let_def)

lemma backtrack_loop_empty: "backtrack_loop rs [] = Inl IndexError"
  by (simp add: backtrack_loop.simps)

lemma backtrack_loop_filled:
  "stack \<noteq> [] \<Longrightarrow> is_filled (last stack) \<Longrightarrow> backtrack_loop rs stack = Inr (last stack)"
  by (subst backtrack_loop.simps) (simp add: Let_def)

lemma backtrack_iter_filled: "is_filled board \<Longrightarrow> backtrack_iter rs board = Inr board"
  by (simp add: backtrack_iter_def backtrack_loop.simps)

lemmas example_defs = grid_of_def solved_example_def one_gap_example_def two_gap_example_def
  dead_end_example_def stuck_example_def

lemmas candidates_eval = construct_candidates_def choices_from_square_def py_diff_def py_inter_def
  row_def col_def lookup_def BLOCK_ARRAY_def groups_eq groups_Suc_0 upt_9 COMPLETE_ROW_def


section \<open>What the search returns\<close>

lemma count_list_distinct: "distinct xs \<Longrightarrow> x \<in> set xs \<Longrightarrow> count_list xs x = 1"
  by (induction xs) auto

lemma set_COMPLETE_ROW: "set COMPLETE_ROW = {1..9}"
  by (auto simp: COMPLETE_ROW_def)

lemma solved_if_filled_ok:
  assumes "is_filled board" "ok board"
  shows "solved board"
  unfolding solved_def each_once_def list_all_iff
proof (intro ballI)
  fix u v assume u: "u \<in> set units" and v: "v \<in> set COMPLETE_ROW"
  let ?vs = "map board u"
  have cells: "board c \<noteq> 0 \<and> 1 \<le> board c \<and> board c \<le> 9" if "c \<in> set u" for c
  proof -
    from that unit_in_indices [OF u] have c: "c \<in> set indices" by blast
    with assms(1) have "board c \<noteq> 0" by (simp add: is_filled_iff)
    moreover from assms(2) c have "0 \<le> board c \<and> board c \<le> 9"
      by (simp add: ok_def in_range_def list_all_iff)
    ultimately show ?thesis by arith
  qed
  then have "filter (\<lambda>v. v \<noteq> 0) ?vs = ?vs" by (simp add: filter_id_conv)
  moreover from assms(2) u have "distinct (filter (\<lambda>v. v \<noteq> 0) ?vs)"
    by (simp add: ok_def consistent_def list_all_iff)
  ultimately have d: "distinct ?vs" by simp
  from d have "card (set ?vs) = length ?vs" by (rule distinct_card)
  then have "card (set ?vs) = 9" using length_unit [OF u] by (simp only: length_map)
  moreover have "set ?vs \<subseteq> {1..9}" using cells by auto
  moreover have "card {1..9::int} = 9" by simp
  ultimately have "set ?vs = {1..9}" by (intro card_subset_eq) simp_all
  with v have "v \<in> set ?vs" by (simp add: set_COMPLETE_ROW)
  with d show "count_list ?vs v = 1" by (rule count_list_distinct)
qed

text \<open>
  C1 (as amended). For a starting grid that is consistent (no unit holds a non-zero value
  twice) and whose cells are in 0..9, every grid that \<open>backtrack_iter\<close> returns is
  completely filled, and every row, column and block of it holds each value of 1..9
  exactly once. This holds for every random source.
\<close>

theorem backtrack_iter_returns_solved_grid:
  assumes "consistent board" "in_range board" "backtrack_iter rs board = Inr result"
  shows "is_filled result \<and> solved result"
proof -
  from assms(1,2) have "\<forall>b\<in>set [board]. ok b" by (simp add: ok_def)
  moreover from assms(3) have "backtrack_loop rs [board] = Inr result"
    by (simp add: backtrack_iter_def)
  ultimately have "ok result \<and> is_filled result" by (rule backtrack_loop_ok)
  then show ?thesis by (simp add: solved_if_filled_ok)
qed

theorem backtrack_iter_returns_solved_grid_witness:
  "backtrack_iter [] (grid_of one_gap_example)
     = Inr (propagate_constraint ((grid_of one_gap_example)((8, 8) := 8))) \<and>
   is_filled (propagate_constraint ((grid_of one_gap_example)((8, 8) := 8))) \<and>
   solved (propagate_constraint ((grid_of one_gap_example)((8, 8) := 8)))"
proof -
  define g where "g = grid_of one_gap_example"
  define r where "r = propagate_constraint (g((8, 8) := 8))"
  have zs: "filter (\<lambda>c. g c = 0) indices = [(8, 8)]"
    by (simp add: g_def indices_eq example_defs)
  have nf: "\<not> is_filled g" by (simp add: is_filled_iff_no_zero_cell zs)
  have pick: "get_unfilled_cell_rand (next_draw []) g = Inr (8, 8)"
    by (simp add: get_unfilled_cell_rand_def zs)
  have cands: "construct_candidates g 8 8 = [8]"
    by (simp add: g_def candidates_eval example_defs)
  have "is_filled (g((8, 8) := 8))"
    by (simp add: is_filled_iff g_def indices_eq example_defs)
  then have fr: "is_filled r" unfolding r_def by (rule is_filled_propagate_constraint)
  have "backtrack_loop [] [g] = backtrack_loop [] [r]"
    using backtrack_loop_expand [of "[g]" "[]" 8 8] nf pick
    by (simp add: cands branches_def next_draw_def r_def)
  also have "\<dots> = Inr r" using fr by (simp add: backtrack_loop_filled)
  finally have run: "backtrack_iter [] g = Inr r" by (simp add: backtrack_iter_def)
  have c: "consistent g"
    by (simp add: consistent_def units_def upt_9 groups_eq groups_Suc_0 g_def example_defs)
  have i: "in_range g"
    by (simp add: in_range_def indices_eq g_def example_defs)
  from backtrack_iter_returns_solved_grid [OF c i run] run show ?thesis
    unfolding g_def r_def by blast
qed

text \<open>
  C1 as stated speaks of every starting grid. The grid of 81 ones is complete, so
  \<open>backtrack_iter\<close> returns it at once, and it is not solved.
\<close>

theorem backtrack_iter_all_ones_counterexample:
  "backtrack_iter [] (\<lambda>c. 1) = Inr (\<lambda>c. 1) \<and> is_filled (\<lambda>c. 1) \<and> \<not> solved (\<lambda>c. 1)"
proof -
  have f: "is_filled (\<lambda>c. 1)" by (simp add: is_filled_iff)
  have "\<not> each_once (map (\<lambda>c. 1) (map (\<lambda>y. (0::nat, y)) [0..<9]))"
    by (simp add: each_once_def COMPLETE_ROW_def upt_9)
  moreover have "map (\<lambda>y. (0::nat, y)) [0..<9] \<in> set units"
    by (simp add: units_def upt_9)
  ultimately have "\<not> solved (\<lambda>c. 1)" unfolding solved_def list_all_iff by blast
  with f backtrack_iter_filled [OF f, of "[]"] show ?thesis by simp
qed

section \<open>Termination of the search\<close>





lemma count_list_twice: "count_list (xs @ [v, v]) v = count_list xs v + 2"
  by simp

lemma dead_end_no_completion:
  "\<not> (completes (grid_of dead_end_example) full \<and> solved full)"
proof
  assume a: "completes (grid_of dead_end_example) full \<and> solved full"
  have "(0, 7) \<in> set indices" "(0, 8) \<in> set indices" by (simp_all add: in_indices)
  with a have "grid_of dead_end_example (0, 7) = 0 \<or> full (0, 7) = grid_of dead_end_example (0, 7)"
    "grid_of dead_end_example (0, 8) = 0 \<or> full (0, 8) = grid_of dead_end_example (0, 8)"
    unfolding completes_def list_all_iff by blast+
  then have f: "full (0, 7) = 8" "full (0, 8) = 8" by (simp_all add: example_defs)
  have "map (\<lambda>y. (0::nat, y)) [0..<9] \<in> set units" by (simp add: units_def upt_9)
  with a have "each_once (map full (map (\<lambda>y. (0::nat, y)) [0..<9]))"
    unfolding solved_def list_all_iff by blast
  moreover have "(8::int) \<in> set COMPLETE_ROW" by (simp add: COMPLETE_ROW_def)
  ultimately have one: "count_list (map full (map (\<lambda>y. (0::nat, y)) [0..<9])) 8 = 1"
    unfolding each_once_def list_all_iff by blast
  have "[0..<9] = [0..<7] @ [7, 8]" by code_simp
  then have "map full (map (\<lambda>y. (0::nat, y)) [0..<9])
      = map full (map (\<lambda>y. (0::nat, y)) [0..<7]) @ [8, 8]"
    using f by simp
  then have "count_list (map full (map (\<lambda>y. (0::nat, y)) [0..<9])) 8
      = count_list (map full (map (\<lambda>y. (0::nat, y)) [0..<7])) 8 + 2"
    by (simp only: count_list_twice)
  with one show False by simp
qed

text \<open>
  C10. There is an incomplete grid without completion on which \<open>backtrack_iter\<close> never
  returns normally: on \<open>dead_end_example\<close> the only empty cell has an empty candidate
  set, nothing is pushed, the stack empties, and \<open>stack.pop()\<close> raises IndexError, for
  every random source.
\<close>

theorem backtrack_iter_dead_end_raises:
  "\<not> is_filled (grid_of dead_end_example) \<and>
   filter (\<lambda>c. grid_of dead_end_example c = 0) indices = [(8, 8)] \<and>
   construct_candidates (grid_of dead_end_example) 8 8 = [] \<and>
   (\<forall>full. \<not> (completes (grid_of dead_end_example) full \<and> solved full)) \<and>
   (\<forall>rs. backtrack_iter rs (grid_of dead_end_example) = Inl IndexError)"
proof -
  define g where "g = grid_of dead_end_example"
  have zs: "filter (\<lambda>c. g c = 0) indices = [(8, 8)]"
    by (simp add: g_def indices_eq example_defs)
  have nf: "\<not> is_filled g" by (simp add: is_filled_iff_no_zero_cell zs)
  have pick: "get_unfilled_cell_rand r g = Inr (8, 8)" for r
    by (simp add: get_unfilled_cell_rand_def zs)
  have cands: "construct_candidates g 8 8 = []"
    by (simp add: g_def candidates_eval example_defs)
  have run: "backtrack_iter rs g = Inl IndexError" for rs
  proof -
    have "backtrack_loop rs [g] = backtrack_loop (tl (tl rs)) []"
      using backtrack_loop_expand [of "[g]" rs 8 8] nf pick
      by (simp add: cands branches_def)
    then show ?thesis by (simp add: backtrack_iter_def backtrack_loop_empty)
  qed
  from nf zs cands run dead_end_no_completion show ?thesis unfolding g_def by blast
qed

section \<open>The uniqueness check\<close>

text \<open>\<open>np.all(np.equal(board, sol))\<close>: equality on all 81 cells.\<close>

definition grids_equal :: "grid \<Rightarrow> grid \<Rightarrow> bool" where
  "grids_equal board sol = list_all (\<lambda>c. board c = sol c) indices"









lemma grids_equal_iff: "grids_equal a b \<longleftrightarrow> (\<forall>c\<in>set indices. a c = b c)"
  by (simp add: grids_equal_def list_all_iff)



lemma grids_equal_trans: "grids_equal a b \<Longrightarrow> grids_equal b c \<Longrightarrow> grids_equal a c"
  by (simp add: grids_equal_iff)





















section \<open>A second pass can differ from the first\<close>

text \<open>
  Concrete boards are evaluated cell by cell: the candidate sets of explicit cells first,
  then the steps of the pass from them.
\<close>

lemma grid_of_apply: "grid_of rows (x, y) = rows ! x ! y"
  by (simp add: grid_of_def)

lemmas cand_eval = construct_candidates_def choices_from_square_def py_diff_def py_inter_def
  row_def col_def lookup_def BLOCK_ARRAY_def groups_eq groups_Suc_0 upt_9 COMPLETE_ROW_def
  grid_of_apply

lemma propagate_skip:
  assumes "list_all (\<lambda>(x, y). length (construct_candidates board x y) \<noteq> 1) cs"
  shows "foldl propagate_step board cs = board"
proof (rule foldl_unchanged)
  fix c assume "c \<in> set cs"
  with assms have "case c of (x, y) \<Rightarrow> length (construct_candidates board x y) \<noteq> 1"
    by (simp add: list_all_iff)
  then show "propagate_step board c = board"
    by (cases c) (simp add: propagate_step_def Let_def)
qed

lemma propagate_step_write:
  "construct_candidates board x y = [v] \<Longrightarrow> propagate_step board (x, y) = board((x, y) := v)"
  by (simp add: propagate_step_def)


lemma unsettled_example_idle_1:
  "list_all (\<lambda>(x, y). length (construct_candidates (grid_of unsettled_example) x y) \<noteq> 1)
     [(0, 0), (0, 1), (0, 2), (0, 3), (0, 4), (0, 5), (0, 6), (0, 7), (0, 8), (1, 0), (1, 1), (1, 2), (1, 3), (1, 4), (1, 5), (1, 6), (1, 7), (1, 8), (2, 0), (2, 1)]"
  by (simp only: list.pred_inject split_conv) (simp add: cand_eval unsettled_example_def)

lemma unsettled_example_idle_2:
  "list_all (\<lambda>(x, y). length (construct_candidates (grid_of unsettled_example) x y) \<noteq> 1)
     [(2, 2), (2, 3), (2, 4), (2, 5), (2, 6), (2, 7), (2, 8), (3, 0), (3, 1), (3, 2), (3, 3), (3, 4), (3, 5), (3, 6), (3, 7), (3, 8), (4, 0), (4, 1), (4, 2), (4, 3)]"
  by (simp only: list.pred_inject split_conv) (simp add: cand_eval unsettled_example_def)

lemma unsettled_example_idle_3:
  "list_all (\<lambda>(x, y). length (construct_candidates (grid_of unsettled_example) x y) \<noteq> 1)
     [(4, 4), (4, 5), (4, 6), (4, 7), (4, 8), (5, 0), (5, 1), (5, 2), (5, 3), (5, 4), (5, 5), (5, 6), (5, 7), (5, 8), (6, 0), (6, 1), (6, 2), (6, 3), (6, 4), (6, 5)]"
  by (simp only: list.pred_inject split_conv) (simp add: cand_eval unsettled_example_def)

lemma unsettled_example_idle_4:
  "list_all (\<lambda>(x, y). length (construct_candidates (grid_of unsettled_example) x y) \<noteq> 1)
     [(6, 6), (6, 7), (6, 8), (7, 0), (7, 1), (7, 2), (7, 3), (7, 4), (7, 5), (7, 6), (7, 7), (7, 8), (8, 0), (8, 1), (8, 2), (8, 3), (8, 4), (8, 5)]"
  by (simp only: list.pred_inject split_conv) (simp add: cand_eval unsettled_example_def)

lemma unsettled_example_idle:
  "list_all (\<lambda>(x, y). length (construct_candidates (grid_of unsettled_example) x y) \<noteq> 1)
     (take 78 indices)"
proof -
  have "take 78 indices = [(0, 0), (0, 1), (0, 2), (0, 3), (0, 4), (0, 5), (0, 6), (0, 7), (0, 8), (1, 0), (1, 1), (1, 2), (1, 3), (1, 4), (1, 5), (1, 6), (1, 7), (1, 8), (2, 0), (2, 1)] @ [(2, 2), (2, 3), (2, 4), (2, 5), (2, 6), (2, 7), (2, 8), (3, 0), (3, 1), (3, 2), (3, 3), (3, 4), (3, 5), (3, 6), (3, 7), (3, 8), (4, 0), (4, 1), (4, 2), (4, 3)] @ [(4, 4), (4, 5), (4, 6), (4, 7), (4, 8), (5, 0), (5, 1), (5, 2), (5, 3), (5, 4), (5, 5), (5, 6), (5, 7), (5, 8), (6, 0), (6, 1), (6, 2), (6, 3), (6, 4), (6, 5)] @ [(6, 6), (6, 7), (6, 8), (7, 0), (7, 1), (7, 2), (7, 3), (7, 4), (7, 5), (7, 6), (7, 7), (7, 8), (8, 0), (8, 1), (8, 2), (8, 3), (8, 4), (8, 5)]"
    by (simp add: indices_eq)
  then show ?thesis
    using unsettled_example_idle_1 unsettled_example_idle_2 unsettled_example_idle_3 unsettled_example_idle_4
    by (simp only: list_all_append)
qed

lemma unsettled_example_no_forced_empty_cell:
  "filter (\<lambda>(x, y). grid_of unsettled_example (x, y) = 0 \<and>
      length (construct_candidates (grid_of unsettled_example) x y) = 1) indices = []"
  unfolding filter_empty_conv
proof
  fix c assume c: "c \<in> set indices"
  have "indices = take 78 indices @ [(8, 6), (8, 7), (8, 8)]"
    by (simp add: indices_eq)
  then have "set indices = set (take 78 indices) \<union> {(8, 6), (8, 7), (8, 8)}"
    by (metis list.simps(15) set_append empty_set)
  with c consider "c \<in> set (take 78 indices)" | "c = (8, 6)" | "c = (8, 7)" | "c = (8, 8)"
    by blast
  then show "\<not> (case c of (x, y) \<Rightarrow> grid_of unsettled_example (x, y) = 0 \<and>
        length (construct_candidates (grid_of unsettled_example) x y) = 1)"
  proof cases
    case 1
    with unsettled_example_idle
    have "case c of (x, y) \<Rightarrow>
        length (construct_candidates (grid_of unsettled_example) x y) \<noteq> 1"
      unfolding list_all_iff by blast
    then show ?thesis by (cases c) simp
  next
    case 2
    then show ?thesis by (simp add: grid_of_apply unsettled_example_def)
  next
    case 3
    then show ?thesis by (simp add: grid_of_apply unsettled_example_def)
  next
    case 4
    then show ?thesis by (simp add: grid_of_apply unsettled_example_def)
  qed
qed

lemma unsettled_example_first_pass:
  "propagate_constraint (grid_of unsettled_example)
     = (grid_of unsettled_example)((8, 6) := 4, (8, 7) := 2)"
proof -
  define g where "g = grid_of unsettled_example"
  have i: "indices = take 78 indices @ [(8, 6), (8, 7), (8, 8)]"
    by (simp add: indices_eq)
  have a: "foldl propagate_step g (take 78 indices) = g"
    unfolding g_def using unsettled_example_idle by (rule propagate_skip)
  have "construct_candidates g 8 6 = [4]"
    by (simp add: g_def cand_eval unsettled_example_def)
  then have b: "propagate_step g (8, 6) = g((8, 6) := 4)" by (rule propagate_step_write)
  have "construct_candidates (g((8, 6) := 4)) 8 7 = [2]"
    by (simp add: g_def cand_eval unsettled_example_def)
  then have c: "propagate_step (g((8, 6) := 4)) (8, 7) = g((8, 6) := 4, (8, 7) := 2)"
    by (rule propagate_step_write)
  have "list_all (\<lambda>(x, y). length (construct_candidates (g((8, 6) := 4, (8, 7) := 2)) x y) \<noteq> 1)
      [(8, 8)]"
    by (simp only: list.pred_inject split_conv) (simp add: g_def cand_eval unsettled_example_def)
  then have "foldl propagate_step (g((8, 6) := 4, (8, 7) := 2)) [(8, 8)] = g((8, 6) := 4, (8, 7) := 2)"
    by (rule propagate_skip)
  then have d: "propagate_step (g((8, 6) := 4, (8, 7) := 2)) (8, 8) = g((8, 6) := 4, (8, 7) := 2)"
    by simp
  have "foldl propagate_step g (take 78 indices @ [(8, 6), (8, 7), (8, 8)])
      = g((8, 6) := 4, (8, 7) := 2)"
    by (simp only: foldl_append foldl_Cons foldl_Nil a b c d)
  with i have "foldl propagate_step g indices = g((8, 6) := 4, (8, 7) := 2)"
    by simp
  then show ?thesis by (simp only: propagate_constraint_def g_def)
qed

text \<open>
  C5. The claim says that on a grid in which no cell has exactly one candidate left, a
  second propagation pass yields the same grid as the first. Candidate sets belong to
  empty cells. On \<open>unsettled_example\<close> no empty cell has a candidate set with exactly one
  member, yet the first pass overwrites the filled cells (8, 6) and (8, 7), and the second
  pass then overwrites the filled cell (0, 6), which holds 7 after the first pass and 3
  after the second. The passes differ because the source writes into filled cells.
\<close>

theorem propagate_twice_differs:
  "filter (\<lambda>(x, y). grid_of unsettled_example (x, y) = 0 \<and>
      length (construct_candidates (grid_of unsettled_example) x y) = 1) indices = [] \<and>
   propagate_constraint (grid_of unsettled_example) (0, 6) = 7 \<and>
   propagate_constraint (propagate_constraint (grid_of unsettled_example)) (0, 6) = 3"
proof -
  define g1 where "g1 = (grid_of unsettled_example)((8, 6) := 4, (8, 7) := 2)"
  have p: "propagate_constraint (grid_of unsettled_example) = g1"
    by (simp only: g1_def unsettled_example_first_pass)
  have v: "g1 (0, 6) = 7" by (simp add: g1_def grid_of_apply unsettled_example_def)
  have i: "indices = [(0, 0), (0, 1), (0, 2), (0, 3), (0, 4), (0, 5)] @ (0, 6) # drop 7 indices"
    by (simp add: indices_eq)
  have "list_all (\<lambda>(x, y). length (construct_candidates g1 x y) \<noteq> 1) [(0, 0), (0, 1), (0, 2), (0, 3), (0, 4), (0, 5)]"
    by (simp only: list.pred_inject split_conv) (simp add: g1_def cand_eval unsettled_example_def)
  then have a: "foldl propagate_step g1 [(0, 0), (0, 1), (0, 2), (0, 3), (0, 4), (0, 5)] = g1"
    by (rule propagate_skip)
  have "construct_candidates g1 0 6 = [3]"
    by (simp add: g1_def cand_eval unsettled_example_def)
  then have "propagate_step g1 (0, 6) = g1((0, 6) := 3)" by (rule propagate_step_write)
  with propagate_constraint_at_visit [OF i, of g1] a
  have "propagate_constraint g1 (0, 6) = 3" by simp
  with p v unsettled_example_no_forced_empty_cell show ?thesis by simp
qed

end
